theory Spec2Isabelle
  imports Main
begin

section \<open>Values of the proto viewer\<close>

text \<open>
  The parser builds plain JavaScript values: a token is a string, a proto is an object
  whose properties hold arrays, a bracketed list is an array.  \<open>Undefined\<close> is the
  value that \<open>is_defined\<close> tests for.  An object is kept as the list of its
  own properties in the order of their creation, which is the order in which
  \<open>for ... in\<close> visits them, except that it visits the names that are canonical
  array indices first.  The properties that every object inherits from
  \<open>Object.prototype\<close> are not in the list; \<open>inherited\<close> below names them.
\<close>

datatype node =
    Undefined
  | Scalar string
  | Object "(string \<times> node list) list"
  | List "node list"

type_synonym proto = "(string \<times> node list) list"

text \<open>
  Error messages are strings built by concatenation in the source; here each message
  is a constructor that carries the pieces the source concatenates.  \<open>Error_at\<close> is the
  result of \<open>make_error\<close>: message, offset, character at the offset, context window.
\<close>

datatype error =
    Missing_Closing_Brace
  | No_end_of_string nat
  | No_end_of_list
  | Invalid_string string
  | Error_at string nat string string

record parse_result =
  val :: node
  position :: nat
  error :: "error option"

text \<open>
  A call returns a value or throws.  The only exception that the code below can raise
  is the \<open>TypeError\<close> of calling a method that the receiver does not have.
\<close>

datatype exception = TypeError

datatype 'a outcome = Throws exception | Returns 'a

abbreviation dquote :: char where "dquote \<equiv> CHR 0x22"
abbreviation squote :: char where "squote \<equiv> CHR 0x27"
abbreviation backslash :: char where "backslash \<equiv> CHR 0x5C"
abbreviation newline :: char where "newline \<equiv> CHR 0x0A"

subsection \<open>Type tests and string conversion\<close>

fun is_defined :: "node \<Rightarrow> bool" where
  "is_defined Undefined = False"
| "is_defined _ = True"

fun is_object :: "node \<Rightarrow> bool" where
  "is_object (Object _) = True"
| "is_object (List _) = True"
| "is_object _ = False"

fun is_array :: "node \<Rightarrow> bool" where
  "is_array (List _) = True"
| "is_array _ = False"

definition is_sub_proto :: "node \<Rightarrow> bool" where
  "is_sub_proto obj = (is_object obj \<and> \<not> is_array obj)"

fun join :: "string \<Rightarrow> string list \<Rightarrow> string" where
  "join sep [] = []"
| "join sep [x] = x"
| "join sep (x # y # ys) = x @ sep @ join sep (y # ys)"

text \<open>
  The conversion JavaScript applies when a value is appended to a string or used as a
  property name.  Inside an array an undefined element is rendered empty.
\<close>

fun to_string :: "node \<Rightarrow> string" where
  "to_string Undefined = ''undefined''"
| "to_string (Scalar s) = s"
| "to_string (Object fs) = ''[object Object]''"
| "to_string (List xs) =
     join '','' (map (\<lambda>x. if is_defined x then to_string x else []) xs)"

subsection \<open>Objects as property lists\<close>

text \<open>
  The names of the properties of \<open>Object.prototype\<close>.  Every object has them by
  inheritance: for such a name \<open>name in obj\<close> holds although \<open>obj\<close> has no property
  of that name of its own, and \<open>obj[name]\<close> is a function (for \<open>__proto__\<close>, the
  prototype object).
\<close>

definition inherited :: "string \<Rightarrow> bool" where
  "inherited k = (k \<in> set [''constructor'', ''hasOwnProperty'', ''isPrototypeOf'',
     ''propertyIsEnumerable'', ''toLocaleString'', ''toString'', ''valueOf'',
     ''__proto__'', ''__defineGetter__'', ''__defineSetter__'',
     ''__lookupGetter__'', ''__lookupSetter__''])"

definition has_own :: "proto \<Rightarrow> string \<Rightarrow> bool" where
  "has_own obj k = (k \<in> set (map fst obj))"

text \<open>The operator \<open>k in obj\<close>.\<close>

definition has_key :: "proto \<Rightarrow> string \<Rightarrow> bool" where
  "has_key obj k = (has_own obj k \<or> inherited k)"

text \<open>Assignment \<open>obj[k] = v\<close>: replaces in place, or creates the property last.\<close>

fun obj_set :: "proto \<Rightarrow> string \<Rightarrow> node list \<Rightarrow> proto" where
  "obj_set [] k v = [(k, v)]"
| "obj_set ((k', v') # rest) k v =
     (if k' = k then (k, v) # rest else (k', v') # obj_set rest k v)"

text \<open>\<open>obj[k].push(x)\<close> for an object that has the property \<open>k\<close> of its own.\<close>

fun obj_push :: "proto \<Rightarrow> string \<Rightarrow> node \<Rightarrow> proto" where
  "obj_push [] k x = []"
| "obj_push ((k', v') # rest) k x =
     (if k' = k then (k', v' @ [x]) # rest else (k', v') # obj_push rest k x)"

text \<open>
  \<open>obj[k].push(x)\<close> for any object.  When \<open>obj\<close> has no property \<open>k\<close> of its own,
  \<open>obj[k]\<close> is \<open>undefined\<close> or a value inherited from \<open>Object.prototype\<close>; neither
  has a method \<open>push\<close>, and the call throws a \<open>TypeError\<close>.
\<close>

definition push_value :: "proto \<Rightarrow> string \<Rightarrow> node \<Rightarrow> proto outcome" where
  "push_value obj k x =
     (if has_own obj k then Returns (obj_push obj k x) else Throws TypeError)"

text \<open>
  The two statements that \<open>parse_body\<close> and \<open>proto_slice\<close> use to store a value:
  \<open>if (!(name in obj)) obj[name] = []; obj[name].push(x)\<close>.  For an inherited name
  that \<open>obj\<close> does not have of its own, the test finds the name, no array is created,
  and the push throws.
\<close>

definition add_value :: "proto \<Rightarrow> string \<Rightarrow> node \<Rightarrow> proto outcome" where
  "add_value obj name x =
     push_value (if \<not> has_key obj name then obj_set obj name [] else obj) name x"

section \<open>Cursor\<close>

definition charAt :: "string \<Rightarrow> nat \<Rightarrow> string" where
  "charAt text ii = (if ii < length text then [text ! ii] else [])"

text \<open>\<open>text.substr(start, len)\<close>; a negative start counts from the end.\<close>

definition substr :: "string \<Rightarrow> int \<Rightarrow> nat \<Rightarrow> string" where
  "substr text start len =
     (let n = int (length text);
          s = (if start < 0 then max (n + start) 0 else min start n)
      in take len (drop (nat s) text))"

definition make_error :: "string \<Rightarrow> string \<Rightarrow> nat \<Rightarrow> error" where
  "make_error message text ii =
     Error_at message ii (charAt text ii) (substr text (int ii - 10) 20)"

text \<open>
  The character classes of the regular expressions.  Characters are code units below
  256; \<open>\s\<close> holds TAB, LF, VT, FF, CR, SPACE and NBSP there.
\<close>

definition is_space :: "char \<Rightarrow> bool" where
  "is_space c = (let n = (of_char c :: nat) in (9 \<le> n \<and> n \<le> 13) \<or> n = 32 \<or> n = 160)"

definition is_word :: "char \<Rightarrow> bool" where
  "is_word c = (let n = (of_char c :: nat) in
     (48 \<le> n \<and> n \<le> 57) \<or> (65 \<le> n \<and> n \<le> 90) \<or> n = 95 \<or> (97 \<le> n \<and> n \<le> 122))"

definition val_char :: "char \<Rightarrow> bool" where
  "val_char c = (is_word c \<or> c = CHR ''.'' \<or> c = CHR ''-'' \<or> c = CHR ''+'' \<or> c = CHR ''/'')"

definition var_char :: "char \<Rightarrow> bool" where
  "var_char c = (is_word c \<or> c = CHR ''.'' \<or> c = CHR ''['' \<or> c = CHR '']''
     \<or> c = CHR ''-'' \<or> c = CHR ''+'' \<or> c = CHR ''/'')"

function consume_loop :: "string \<Rightarrow> (char \<Rightarrow> bool) \<Rightarrow> nat \<Rightarrow> nat" where
  "consume_loop text regexp jj =
     (if jj < length text \<and> regexp (text ! jj) then consume_loop text regexp (jj + 1) else jj)"
  by pat_completeness auto
termination
  by (relation "measure (\<lambda>(text, regexp, jj). length text - jj)") auto

declare consume_loop.simps [simp del]

definition consume_regexp :: "string \<Rightarrow> nat \<Rightarrow> (char \<Rightarrow> bool) \<Rightarrow> parse_result" where
  "consume_regexp text ii regexp =
     (let jj = consume_loop text regexp ii
      in \<lparr>val = Scalar (substr text (int ii) (jj - ii)), position = jj, error = None\<rparr>)"

definition consume_whitespace :: "string \<Rightarrow> nat \<Rightarrow> nat" where
  "consume_whitespace text ii = position (consume_regexp text ii is_space)"

text \<open>The inner loop of \<open>consume_comments\<close>: through the next newline, inclusive.\<close>

function skip_line :: "string \<Rightarrow> nat \<Rightarrow> nat" where
  "skip_line text ii =
     (if ii < length text
      then (if charAt text ii \<noteq> [newline] then skip_line text (ii + 1) else ii + 1)
      else ii)"
  by pat_completeness auto
termination
  by (relation "measure (\<lambda>(text, ii). length text - ii)") auto

declare skip_line.simps [simp del]

lemma consume_loop_ge: "ii \<le> consume_loop t regexp ii"
proof (induction t regexp ii rule: consume_loop.induct)
  case (1 t regexp jj)
  show ?case
  proof (cases "jj < length t \<and> regexp (t ! jj)")
    case True
    with 1 have "jj + 1 \<le> consume_loop t regexp (jj + 1)" by blast
    with True show ?thesis by (subst consume_loop.simps) simp
  next
    case False
    then show ?thesis by (subst consume_loop.simps) auto
  qed
qed

lemma consume_whitespace_ge: "ii \<le> consume_whitespace text ii"
  by (simp add: consume_whitespace_def consume_regexp_def Let_def consume_loop_ge)

lemma skip_line_gt: "ii < length t \<Longrightarrow> ii < skip_line t ii"
proof (induction t ii rule: skip_line.induct)
  case (1 t ii)
  have unfold: "skip_line t ii =
      (if charAt t ii \<noteq> [newline] then skip_line t (ii + 1) else ii + 1)"
    using "1.prems" by (subst skip_line.simps) simp
  show ?case
  proof (cases "charAt t ii \<noteq> [newline]")
    case False
    then show ?thesis by (simp add: unfold)
  next
    case True
    show ?thesis
    proof (cases "ii + 1 < length t")
      case True
      with "1.IH" "1.prems" \<open>charAt t ii \<noteq> [newline]\<close>
      have "ii + 1 < skip_line t (ii + 1)" by simp
      with \<open>charAt t ii \<noteq> [newline]\<close> show ?thesis by (simp add: unfold)
    next
      case False
      then have "skip_line t (ii + 1) = ii + 1" by (subst skip_line.simps) simp
      with \<open>charAt t ii \<noteq> [newline]\<close> show ?thesis by (simp add: unfold)
    qed
  qed
qed

function comments_loop :: "string \<Rightarrow> nat \<Rightarrow> nat" where
  "comments_loop text ii =
     (if ii < length text \<and> charAt text ii = ''#''
      then comments_loop text (consume_whitespace text (skip_line text ii))
      else ii)"
  by pat_completeness auto
termination
proof (relation "measure (\<lambda>(text, ii). length text - ii)")
  show "wf (measure (\<lambda>(text, ii). length text - ii))" by simp
next
  fix t :: string and ii :: nat
  assume a: "ii < length t \<and> charAt t ii = ''#''"
  then have "ii < skip_line t ii" by (simp add: skip_line_gt)
  also have "\<dots> \<le> consume_whitespace t (skip_line t ii)"
    by (rule consume_whitespace_ge)
  finally show "((t, consume_whitespace t (skip_line t ii)), (t, ii))
      \<in> measure (\<lambda>(text, ii). length text - ii)"
    using a by auto
qed

declare comments_loop.simps [simp del]

definition consume_comments :: "string \<Rightarrow> nat \<Rightarrow> nat" where
  "consume_comments text ii = comments_loop text (consume_whitespace text ii)"

section \<open>Parser\<close>

text \<open>
  The scanning loop of \<open>parse_string\<close>: \<open>acc\<close> is the array of characters
  collected so far, \<open>escape\<close> the flag set by an unescaped backslash.  It returns the
  array and the index at which the loop stopped.
\<close>

function string_loop :: "string \<Rightarrow> string \<Rightarrow> nat \<Rightarrow> bool \<Rightarrow> string \<Rightarrow> string \<times> nat" where
  "string_loop text quote jj escape acc =
     (if jj < length text then
        (let acc' = acc @ charAt text jj in
         if \<not> escape \<and> charAt text jj = quote then (acc', jj)
         else string_loop text quote (jj + 1)
                (\<not> escape \<and> charAt text jj = [backslash]) acc')
      else (acc, jj))"
  by pat_completeness auto
termination
  by (relation "measure (\<lambda>(text, quote, jj, escape, acc). length text - jj)") auto

declare string_loop.simps [simp del]

definition parse_string :: "string \<Rightarrow> nat \<Rightarrow> parse_result" where
  "parse_string text ii =
     (let quote = charAt text ii in
      if charAt text ii \<noteq> [squote] \<and> charAt text ii \<noteq> [dquote]
      then \<lparr>val = Scalar [], position = ii, error = Some (Invalid_string quote)\<rparr>
      else
        (let (v, jj) = string_loop text quote (ii + 1) False (charAt text ii) in
         if length text \<le> jj
         then \<lparr>val = Scalar v, position = jj, error = Some (No_end_of_string ii)\<rparr>
         else if charAt text jj = quote
         then \<lparr>val = Scalar v, position = consume_comments text (jj + 1), error = None\<rparr>
         else \<lparr>val = Scalar v, position = jj, error = None\<rparr>))"

definition parse_token :: "string \<Rightarrow> nat \<Rightarrow> bool \<Rightarrow> parse_result" where
  "parse_token text ii should_include_brackets =
     (let result =
        (if charAt text ii = [dquote] \<or> charAt text ii = [squote]
         then parse_string text ii
         else (consume_regexp text ii
                 (if should_include_brackets then var_char else val_char))
              \<lparr>error := None\<rparr>)
      in if \<not> is_defined (val result)
         then result\<lparr>error := Some (make_error ''Error parsing token'' text ii)\<rparr>
         else result)"

text \<open>What is left of \<open>parse_list\<close> once its loop has been left.\<close>

definition list_finish :: "string \<Rightarrow> nat \<Rightarrow> node list \<Rightarrow> error option \<Rightarrow> parse_result" where
  "list_finish text ii acc err =
     (if length text \<le> ii
      then \<lparr>val = List acc, position = ii, error = Some No_end_of_list\<rparr>
      else if charAt text ii = '']''
      then \<lparr>val = List acc, position = consume_comments text (ii + 1), error = err\<rparr>
      else \<lparr>val = List acc, position = ii, error = err\<rparr>)"

text \<open>\<open>!filter_func || !filter_func(name)\<close>\<close>

definition keeps :: "(string \<Rightarrow> bool) option \<Rightarrow> string \<Rightarrow> bool" where
  "keeps filter_func name = (case filter_func of None \<Rightarrow> True | Some f \<Rightarrow> \<not> f name)"

text \<open>
  The parsing functions call each other, and the loops of \<open>parse_body\<close> and
  \<open>parse_list\<close> go on from the position a nested call returns.  The first argument
  bounds the depth of calls: every call, and every turn of a loop, uses one unit, and
  \<open>None\<close> means that the bound was reached.  \<open>parse_body_loop\<close> and
  \<open>parse_list_loop\<close> are the \<open>while\<close> loops, with the object or array built so far
  as \<open>acc\<close>.  An exception thrown in a nested call ends every caller: none of the
  functions has a handler.
\<close>

function (sequential) parse_proto_fuel :: "nat \<Rightarrow> string \<Rightarrow> nat \<Rightarrow> (string \<Rightarrow> bool) option \<Rightarrow> parse_result outcome option"
  and parse_body_fuel :: "nat \<Rightarrow> string \<Rightarrow> nat \<Rightarrow> (string \<Rightarrow> bool) option \<Rightarrow> parse_result outcome option"
  and parse_body_loop :: "nat \<Rightarrow> string \<Rightarrow> nat \<Rightarrow> (string \<Rightarrow> bool) option \<Rightarrow> proto \<Rightarrow> parse_result outcome option"
  and parse_value_fuel :: "nat \<Rightarrow> string \<Rightarrow> nat \<Rightarrow> (string \<Rightarrow> bool) option \<Rightarrow> parse_result outcome option"
  and parse_list_fuel :: "nat \<Rightarrow> string \<Rightarrow> nat \<Rightarrow> (string \<Rightarrow> bool) option \<Rightarrow> parse_result outcome option"
  and parse_list_loop :: "nat \<Rightarrow> string \<Rightarrow> nat \<Rightarrow> (string \<Rightarrow> bool) option \<Rightarrow> node list \<Rightarrow> parse_result outcome option"
where
  "parse_proto_fuel 0 text ii filter_func = None"
| "parse_proto_fuel (Suc n) text ii filter_func =
     (let ii1 = consume_comments text ii;
          has_braces = (charAt text ii1 = ''{'');
          ii2 = (if has_braces then ii1 + 1 else ii1)
      in case parse_body_fuel n text ii2 filter_func of
           None \<Rightarrow> None
         | Some (Throws e) \<Rightarrow> Some (Throws e)
         | Some (Returns result) \<Rightarrow>
             if error result \<noteq> None then Some (Returns result)
             else if has_braces then
               (let ii3 = consume_comments text (position result) in
                if charAt text ii3 \<noteq> ''}''
                then Some (Returns (result\<lparr>position := consume_comments text ii3,
                                            error := Some Missing_Closing_Brace\<rparr>))
                else Some (Returns (result\<lparr>position := consume_comments text (ii3 + 1)\<rparr>)))
             else Some (Returns result))"
| "parse_body_fuel 0 text ii filter_func = None"
| "parse_body_fuel (Suc n) text ii filter_func = parse_body_loop n text ii filter_func []"
| "parse_body_loop 0 text ii filter_func acc = None"
| "parse_body_loop (Suc n) text ii filter_func acc =
     (if ii < length text \<and> charAt text ii \<noteq> ''}'' then
        (let old_ii = ii;
             ii1 = consume_comments text ii;
             name = parse_token text ii1 True
         in if error name \<noteq> None
            then Some (Returns \<lparr>val = Object acc, position = ii1, error = error name\<rparr>)
            else
              (let ii2 = consume_comments text (position name);
                   ii3 = consume_comments text (if charAt text ii2 = '':'' then ii2 + 1 else ii2)
               in case parse_value_fuel n text ii3 filter_func of
                    None \<Rightarrow> None
                  | Some (Throws e) \<Rightarrow> Some (Throws e)
                  | Some (Returns v) \<Rightarrow>
                      (let ii4 = consume_comments text
                                   (if position v \<noteq> 0 then position v else ii3)
                       in case (if keeps filter_func (to_string (val name))
                                then add_value acc (to_string (val name)) (val v)
                                else Returns acc) of
                            Throws e \<Rightarrow> Some (Throws e)
                          | Returns acc' \<Rightarrow>
                              if error v \<noteq> None
                              then Some (Returns \<lparr>val = Object acc', position = ii4,
                                                  error = error v\<rparr>)
                              else
                                (let ii5 = (if charAt text ii4 = '',''
                                            then consume_comments text (ii4 + 1) else ii4)
                                 in if ii5 = old_ii
                                    then Some (Returns \<lparr>val = Object acc', position = ii5,
                                           error = Some (make_error
                                             ''Internal error!  Infinite loop'' text ii5)\<rparr>)
                                    else parse_body_loop n text ii5 filter_func acc'))))
      else Some (Returns \<lparr>val = Object acc, position = ii, error = None\<rparr>))"
| "parse_value_fuel 0 text ii filter_func = None"
| "parse_value_fuel (Suc n) text ii filter_func =
     (if charAt text ii = ''{'' then parse_proto_fuel n text ii filter_func
      else if charAt text ii = ''['' then parse_list_fuel n text ii filter_func
      else Some (Returns (parse_token text ii False)))"
| "parse_list_fuel 0 text ii filter_func = None"
| "parse_list_fuel (Suc n) text ii filter_func =
     parse_list_loop n text
       (if charAt text ii = ''['' then consume_comments text (ii + 1) else ii)
       filter_func []"
| "parse_list_loop 0 text ii filter_func acc = None"
| "parse_list_loop (Suc n) text ii filter_func acc =
     (if ii < length text \<and> charAt text ii \<noteq> '']'' then
        (let old_ii = ii in
         case parse_value_fuel n text ii filter_func of
           None \<Rightarrow> None
         | Some (Throws e) \<Rightarrow> Some (Throws e)
         | Some (Returns item) \<Rightarrow>
             if error item \<noteq> None
             then Some (Returns \<lparr>val = List acc, position = position item, error = None\<rparr>)
             else
               (let ii1 = consume_comments text (position item);
                    acc' = acc @ [val item];
                    ii2 = (if ii1 < length text \<and> charAt text ii1 = '',''
                           then consume_comments text (ii1 + 1) else ii1)
                in if old_ii = ii2
                   then Some (Returns (list_finish text ii2 acc'
                          (Some (make_error
                             ''Error parsing list, unrecognized character'' text ii2))))
                   else parse_list_loop n text ii2 filter_func acc'))
      else Some (Returns (list_finish text ii acc None)))"
  by pat_completeness auto
termination
  by (relation "measure (\<lambda>x. case x of
        Inl (Inl (n, _)) \<Rightarrow> n
      | Inl (Inr (Inl (n, _))) \<Rightarrow> n
      | Inl (Inr (Inr (n, _))) \<Rightarrow> n
      | Inr (Inl (n, _)) \<Rightarrow> n
      | Inr (Inr (Inl (n, _))) \<Rightarrow> n
      | Inr (Inr (Inr (n, _))) \<Rightarrow> n)") simp_all

text \<open>
  The entry points with the source's names.  The bound \<open>4 * length text + 4\<close> is
  never reached (\<open>parse_proto_total\<close> below), so the result is always \<open>Some\<close>: the
  call returns, or it throws.
\<close>

definition fuel :: "string \<Rightarrow> nat" where
  "fuel text = 4 * length text + 4"

definition parse_proto :: "string \<Rightarrow> nat \<Rightarrow> (string \<Rightarrow> bool) option \<Rightarrow> parse_result outcome option" where
  "parse_proto text ii filter_func = parse_proto_fuel (fuel text) text ii filter_func"

definition parse_body :: "string \<Rightarrow> nat \<Rightarrow> (string \<Rightarrow> bool) option \<Rightarrow> parse_result outcome option" where
  "parse_body text ii filter_func = parse_body_fuel (fuel text) text ii filter_func"

definition parse_value :: "string \<Rightarrow> nat \<Rightarrow> (string \<Rightarrow> bool) option \<Rightarrow> parse_result outcome option" where
  "parse_value text ii filter_func = parse_value_fuel (fuel text) text ii filter_func"

definition parse_list :: "string \<Rightarrow> nat \<Rightarrow> (string \<Rightarrow> bool) option \<Rightarrow> parse_result outcome option" where
  "parse_list text ii filter_func = parse_list_fuel (fuel text) text ii filter_func"

section \<open>Tree-info engine\<close>

text \<open>
  The info object of one attribute.  \<open>Attr_dict\<close> and \<open>Attr_list\<close> hold the
  \<open>values\<close>, the \<open>data\<close> array and the \<open>total\<close> of the attribute;
  \<open>Attr_leaf\<close> is the object that holds the value of a leaf.  The source computes
  every attribute of its \<open>attributes\<close> argument independently of the others, and
  \<open>get_depth_info\<close> passes one.
\<close>

datatype 'a attr_info =
    Attr_leaf 'a
  | Attr_dict "(string \<times> 'a attr_info) list" "'a list" 'a
  | Attr_list "'a attr_info list" "'a list" 'a

fun info_total :: "'a attr_info \<Rightarrow> 'a" where
  "info_total (Attr_leaf a) = a"
| "info_total (Attr_dict vals dat tot) = tot"
| "info_total (Attr_list vals dat tot) = tot"

text \<open>
  \<open>info_fields\<close> is the loop over the names of the proto and \<open>info_elems\<close> the loop
  over the elements of one field.  On an array-valued element the source walks the
  indices of the array as if they were field names; that walk is outside this model,
  and the result is \<open>None\<close> there.
\<close>

fun make_proto_info :: "proto \<Rightarrow> (string \<Rightarrow> nat \<Rightarrow> node \<Rightarrow> 'a) \<Rightarrow> (string \<Rightarrow> 'a list \<Rightarrow> 'a)
      \<Rightarrow> 'a attr_info option"
  and info_fields :: "proto \<Rightarrow> (string \<Rightarrow> nat \<Rightarrow> node \<Rightarrow> 'a) \<Rightarrow> (string \<Rightarrow> 'a list \<Rightarrow> 'a)
      \<Rightarrow> (string \<times> 'a attr_info) list \<Rightarrow> 'a list
      \<Rightarrow> ((string \<times> 'a attr_info) list \<times> 'a list) option"
  and info_elems :: "string \<Rightarrow> node list \<Rightarrow> nat \<Rightarrow> (string \<Rightarrow> nat \<Rightarrow> node \<Rightarrow> 'a)
      \<Rightarrow> (string \<Rightarrow> 'a list \<Rightarrow> 'a) \<Rightarrow> 'a attr_info list \<Rightarrow> 'a list
      \<Rightarrow> ('a attr_info list \<times> 'a list) option"
where
  "make_proto_info proto leaf_function aggregator =
     (case info_fields proto leaf_function aggregator [] [] of
        None \<Rightarrow> None
      | Some (vals, dat) \<Rightarrow> Some (Attr_dict vals dat (aggregator ''map'' dat)))"
| "info_fields [] leaf_function aggregator vals dat = Some (vals, dat)"
| "info_fields ((name, xs) # rest) leaf_function aggregator vals dat =
     (case info_elems name xs 0 leaf_function aggregator [] [] of
        None \<Rightarrow> None
      | Some (vs, ds) \<Rightarrow>
          (let tot = aggregator ''list'' ds
           in info_fields rest leaf_function aggregator
                (vals @ [(name, Attr_list vs ds tot)]) (dat @ [tot])))"
| "info_elems name [] ii leaf_function aggregator vs ds = Some (vs, ds)"
| "info_elems name (x # xs) ii leaf_function aggregator vs ds =
     (case x of
        List ys \<Rightarrow> None
      | Object p \<Rightarrow>
          (case make_proto_info p leaf_function aggregator of
             None \<Rightarrow> None
           | Some sub \<Rightarrow> info_elems name xs (ii + 1) leaf_function aggregator
                          (vs @ [sub]) (ds @ [info_total sub]))
      | _ \<Rightarrow>
          (let a = leaf_function name ii x
           in info_elems name xs (ii + 1) leaf_function aggregator
                (vs @ [Attr_leaf a]) (ds @ [a])))"

text \<open>The loop of the depth aggregator, \<open>depth\<close> being its running maximum.\<close>

fun depth_loop :: "string \<Rightarrow> nat list \<Rightarrow> nat \<Rightarrow> nat" where
  "depth_loop name [] depth = depth"
| "depth_loop name (x # infos) depth =
     (let v = (if name = ''map'' then x + 1 else x)
      in depth_loop name infos (if depth < v then v else depth))"

definition depth_aggregator :: "string \<Rightarrow> nat list \<Rightarrow> nat" where
  "depth_aggregator name infos = depth_loop name infos 0"

definition get_depth_info :: "proto \<Rightarrow> nat attr_info option" where
  "get_depth_info proto = make_proto_info proto (\<lambda>name ii v. 0) depth_aggregator"

section \<open>Tree transforms\<close>


text \<open>
  \<open>slice_fields\<close> and \<open>slice_elems\<close> are the two loops of \<open>proto_slice\<close>.  A store
  that throws ends the call.
\<close>

fun proto_slice :: "proto \<Rightarrow> (string \<Rightarrow> node \<Rightarrow> bool) \<Rightarrow> proto outcome"
  and slice_fields :: "proto \<Rightarrow> (string \<Rightarrow> node \<Rightarrow> bool) \<Rightarrow> proto \<Rightarrow> proto outcome"
  and slice_elems :: "string \<Rightarrow> node list \<Rightarrow> (string \<Rightarrow> node \<Rightarrow> bool) \<Rightarrow> proto \<Rightarrow> proto outcome"
where
  "proto_slice proto should_keep_slice_func = slice_fields proto should_keep_slice_func []"
| "slice_fields [] should_keep_slice_func new_proto = Returns new_proto"
| "slice_fields ((key, xs) # rest) should_keep_slice_func new_proto =
     (case slice_elems key xs should_keep_slice_func new_proto of
        Throws e \<Rightarrow> Throws e
      | Returns new_proto' \<Rightarrow> slice_fields rest should_keep_slice_func new_proto')"
| "slice_elems key [] should_keep_slice_func new_proto = Returns new_proto"
| "slice_elems key (x # xs) should_keep_slice_func new_proto =
     (case (if is_sub_proto x
            then (case x of
                    Object p \<Rightarrow>
                      (case proto_slice p should_keep_slice_func of
                         Throws e \<Rightarrow> Throws e
                       | Returns sub \<Rightarrow> add_value new_proto key (Object sub))
                  | _ \<Rightarrow> Returns new_proto)
            else if should_keep_slice_func key x
                 then add_value new_proto key x
                 else Returns new_proto) of
        Throws e \<Rightarrow> Throws e
      | Returns new_proto' \<Rightarrow> slice_elems key xs should_keep_slice_func new_proto')"

section \<open>Serializer\<close>

text \<open>
  \<open>format_items\<close> is the loop over an array-valued element, \<open>format_elems\<close> the
  loop over the elements of one key and \<open>format_fields\<close> the loop over the keys;
  \<open>str\<close> is the string built so far.  An omitted \<open>indent\<close> is the empty string.
\<close>

fun format_items :: "node list \<Rightarrow> string \<Rightarrow> string" where
  "format_items [] str = str"
| "format_items (y # ys) str =
     format_items ys (str @ to_string y @ (if ys \<noteq> [] then '', '' else []))"

fun format :: "proto \<Rightarrow> bool \<Rightarrow> string \<Rightarrow> string"
  and format_fields :: "proto \<Rightarrow> bool \<Rightarrow> string \<Rightarrow> string \<Rightarrow> string"
  and format_elems :: "string \<Rightarrow> node list \<Rightarrow> bool \<Rightarrow> string \<Rightarrow> string \<Rightarrow> string"
where
  "format proto flat indent = format_fields proto flat indent []"
| "format_fields [] flat indent str = str"
| "format_fields ((key, xs) # rest) flat indent str =
     format_fields rest flat indent
       (format_elems key xs flat indent str @ (if \<not> flat then [newline] else '' ''))"
| "format_elems key [] flat indent str = str"
| "format_elems key (x # xs) flat indent str =
     (let str1 = (if \<not> flat then str @ indent else str) @ key;
          str2 =
            (case x of
               List ys \<Rightarrow> format_items ys (str1 @ '': [ '') @ '' ]''
             | Object p \<Rightarrow>
                 (str1 @ '' { '' @ (if \<not> flat then [newline] else []))
                 @ format p flat (indent @ ''  '')
                 @ (if \<not> flat then indent else []) @ '' }''
             | _ \<Rightarrow> str1 @ '': '' @ to_string x);
          str3 = (if xs \<noteq> [] then str2 @ (if \<not> flat then [newline] else '' '') else str2)
      in format_elems key xs flat indent str3)"

section \<open>Predicates used in the statements\<close>

text \<open>The value of the result of a call, when the call has returned.\<close>

definition returned_val :: "parse_result outcome option \<Rightarrow> node option" where
  "returned_val x = (case x of Some (Returns r) \<Rightarrow> Some (val r) | _ \<Rightarrow> None)"

text \<open>
  \<open>closes q escape body\<close>: read from the left, starting with the given state of the
  escape flag (set by a backslash that is not itself escaped, cleared by the next
  character), \<open>body\<close> holds no unescaped \<open>q\<close>, and the flag is clear at its end, so
  that a \<open>q\<close> that follows \<open>body\<close> is the first unescaped one.
\<close>

fun closes :: "char \<Rightarrow> bool \<Rightarrow> string \<Rightarrow> bool" where
  "closes q escape [] = (\<not> escape)"
| "closes q escape (c # cs) =
     (\<not> (\<not> escape \<and> c = q) \<and> closes q (\<not> escape \<and> c = backslash) cs)"

text \<open>Every element of every field is a scalar.\<close>

definition only_scalars :: "proto \<Rightarrow> bool" where
  "only_scalars proto = list_all (\<lambda>(name, xs). list_all (\<lambda>x. case x of Scalar s \<Rightarrow> True | _ \<Rightarrow> False) xs) proto"


section \<open>Depth\<close>

lemma depth_loop_zeros_list: "depth_loop ''list'' (replicate n 0) d = d"
  by (induction n arbitrary: d) simp_all

lemma depth_loop_zeros_map: "depth_loop ''map'' (replicate n 0) d = (if n = 0 then d else max d 1)"
  by (induction n arbitrary: d) (auto simp: max_def)

lemma info_elems_scalars:
  "list_all (\<lambda>x. case x of Scalar s \<Rightarrow> True | _ \<Rightarrow> False) xs \<Longrightarrow>
   info_elems name xs ii (\<lambda>name ii v. 0::nat) agg vs ds
     = Some (vs @ replicate (length xs) (Attr_leaf 0), ds @ replicate (length xs) 0)"
proof (induction xs arbitrary: ii vs ds)
  case Nil
  then show ?case by simp
next
  case (Cons x xs)
  then obtain s where "x = Scalar s" by (cases x) auto
  with Cons show ?case by (simp add: replicate_app_Cons_same)
qed

lemma depth_aggregator_zeros:
  "depth_aggregator ''list'' (replicate n 0) = 0"
  "depth_aggregator ''map'' (replicate n 0) = (if n = 0 then 0 else 1)"
  by (simp_all add: depth_aggregator_def depth_loop_zeros_list depth_loop_zeros_map)

lemma info_fields_scalars:
  "only_scalars proto \<Longrightarrow>
   \<exists>vals'. info_fields proto (\<lambda>name ii v. 0::nat) depth_aggregator vals dat
     = Some (vals', dat @ replicate (length proto) 0)"
proof (induction proto arbitrary: vals dat)
  case Nil
  then show ?case by simp
next
  case (Cons f proto)
  obtain name xs where f: "f = (name, xs)" by (cases f)
  from Cons.prems f have xs: "list_all (\<lambda>x. case x of Scalar s \<Rightarrow> True | _ \<Rightarrow> False) xs"
    and rest: "only_scalars proto"
    by (simp_all add: only_scalars_def)
  let ?entry = "(name, Attr_list (replicate (length xs) (Attr_leaf 0)) (replicate (length xs) 0) 0)"
  from Cons.IH [OF rest, of "vals @ [?entry]" "dat @ [0]"]
  obtain vals' where "info_fields proto (\<lambda>name ii v. 0::nat) depth_aggregator
      (vals @ [?entry]) (dat @ [0]) = Some (vals', (dat @ [0]) @ replicate (length proto) 0)"
    by blast
  then show ?case
    by (simp add: f info_elems_scalars [OF xs] depth_aggregator_zeros)
qed

lemma depth_scalars_info:
  assumes "only_scalars proto"
  shows "\<exists>vals dat. get_depth_info proto =
           Some (Attr_dict vals dat (if proto = [] then 0 else 1))"
proof -
  from info_fields_scalars [OF assms, of "[]" "[]"]
  obtain vals' where "info_fields proto (\<lambda>name ii v. 0::nat) depth_aggregator [] []
      = Some (vals', replicate (length proto) 0)"
    by auto
  then have "get_depth_info proto = Some (Attr_dict vals' (replicate (length proto) 0)
      (if length proto = 0 then 0 else 1))"
    by (simp add: get_depth_info_def depth_aggregator_zeros)
  then show ?thesis by auto
qed

lemma depth_scalars:
  "only_scalars proto \<Longrightarrow>
   map_option info_total (get_depth_info proto) = Some (if proto = [] then 0 else 1)"
  using depth_scalars_info [of proto] by auto

lemma depth_nested:
  assumes "only_scalars proto"
  shows "map_option info_total (get_depth_info [(name, [Object proto])])
     = Some (if proto = [] then 1 else 2)"
proof -
  from info_fields_scalars [OF assms, of "[]" "[]"]
  obtain vals' where inner: "info_fields proto (\<lambda>name ii v. 0::nat) depth_aggregator [] []
      = Some (vals', replicate (length proto) 0)"
    by auto
  have "depth_aggregator ''map'' [depth_aggregator ''list'' [d]] = d + 1" for d
    by (simp add: depth_aggregator_def)
  then show ?thesis
    by (simp add: get_depth_info_def inner depth_aggregator_zeros Let_def)
qed


text \<open>
  C2, as the code has it.  The depth total of a tree whose fields hold only scalars is
  1 as soon as the tree has a field (0 for the tree without fields): the aggregator
  adds 1 to every entry when it is called for the fields of an object.  With one
  field that holds one nested object of scalars the total is 2 (1 when the nested
  object has no field).
\<close>

theorem depth_total_of_scalar_trees:
  assumes "only_scalars proto"
  shows "map_option info_total (get_depth_info proto) = Some (if proto = [] then 0 else 1)
    \<and> map_option info_total (get_depth_info [(name, [Object proto])])
        = Some (if proto = [] then 1 else 2)"
  using assms by (simp add: depth_scalars depth_nested)

theorem depth_total_of_scalar_trees_witness:
  "only_scalars [(''a'', [Scalar ''1''])]
   \<and> map_option info_total (get_depth_info [(''a'', [Scalar ''1''])]) = Some 1
   \<and> map_option info_total (get_depth_info [(''f'', [Object [(''a'', [Scalar ''1''])]])])
       = Some 2"
proof -
  have h: "only_scalars [(''a'', [Scalar ''1''])]"
    by (simp add: only_scalars_def)
  show ?thesis
    using h depth_total_of_scalar_trees [OF h, of "''f''"] by simp
qed

text \<open>
  C2, as the specification states it, fails: the tree \<open>{a: ["1"]}\<close> holds only
  scalars and its depth total is 1, not 0.
\<close>

theorem depth_total_scalar_tree_counterexample:
  "only_scalars [(''a'', [Scalar ''1''])]
   \<and> map_option info_total (get_depth_info [(''a'', [Scalar ''1''])]) \<noteq> Some 0"
  by (simp add: only_scalars_def get_depth_info_def depth_aggregator_def)

section \<open>Lists\<close>

text \<open>
  C5, as the code has it: a bracketed list is parsed into one array, and that array is
  the single element appended to the sequence of field \<open>a\<close>.
\<close>

theorem parse_list_example:
  "parse_proto ''a: [1, 2, 3]'' 0 None =
     Some (Returns
       \<lparr>val = Object [(''a'', [List [Scalar ''1'', Scalar ''2'', Scalar ''3'']])],
         position = 12, error = None\<rparr>)"
  by code_simp

text \<open>
  C5, as the specification states it, fails: the value is not
  \<open>{a: ["1", "2", "3"]}\<close>.
\<close>

theorem parse_list_example_counterexample:
  "returned_val (parse_proto ''a: [1, 2, 3]'' 0 None)
     \<noteq> Some (Object [(''a'', [Scalar ''1'', Scalar ''2'', Scalar ''3''])])"
  by code_simp

section \<open>Quoted strings\<close>

lemma charAt_eq_single: "charAt t k = [c] \<longleftrightarrow> k < length t \<and> t ! k = c"
  by (auto simp: charAt_def)

lemma string_loop_result:
  "string_loop t q jj e acc = (v, k) \<Longrightarrow> jj \<le> length t \<Longrightarrow>
     jj \<le> k \<and> k \<le> length t
     \<and> (k < length t \<longrightarrow> charAt t k = q \<and> v = acc @ take (k + 1 - jj) (drop jj t))"
proof (induction t q jj e acc rule: string_loop.induct)
  case (1 t q jj e acc)
  show ?case
  proof (cases "jj < length t")
    case False
    with "1.prems" show ?thesis by (subst (asm) string_loop.simps) simp
  next
    case True
    show ?thesis
    proof (cases "\<not> e \<and> charAt t jj = q")
      case True
      with \<open>jj < length t\<close> "1.prems" show ?thesis
        by (subst (asm) string_loop.simps) (auto simp: charAt_def take_Suc_conv_app_nth)
    next
      case False
      with \<open>jj < length t\<close> "1.prems"
      have rec: "string_loop t q (jj + 1) (\<not> e \<and> charAt t jj = [backslash]) (acc @ charAt t jj) = (v, k)"
        by (subst (asm) string_loop.simps) (simp add: Let_def)
      from "1.IH" [OF \<open>jj < length t\<close> refl False rec] \<open>jj < length t\<close>
      have ih: "jj + 1 \<le> k \<and> k \<le> length t
        \<and> (k < length t \<longrightarrow> charAt t k = q \<and> v = (acc @ charAt t jj) @ take (k + 1 - (jj + 1)) (drop (jj + 1) t))"
        by simp
      have "k < length t \<Longrightarrow> (acc @ charAt t jj) @ take (k + 1 - (jj + 1)) (drop (jj + 1) t)
          = acc @ take (k + 1 - jj) (drop jj t)"
      proof -
        assume "k < length t"
        from ih have "k + 1 - jj = Suc (k + 1 - (jj + 1))" by linarith
        moreover have "drop jj t = t ! jj # drop (jj + 1) t"
          using \<open>jj < length t\<close> by (simp add: Cons_nth_drop_Suc)
        ultimately show ?thesis using \<open>jj < length t\<close> by (simp add: charAt_def)
      qed
      with ih show ?thesis by auto
    qed
  qed
qed

lemma drop_eq_ConsD: "drop ii t = c # rest \<Longrightarrow> ii < length t \<and> t ! ii = c"
  by (metis drop_eq_Nil hd_drop_conv_nth list.distinct(1) list.sel(1) not_le)

lemma charAt_drop_Cons: "drop ii t = c # rest \<Longrightarrow> charAt t ii = [c]"
  using drop_eq_ConsD [of ii t c rest] by (simp add: charAt_def)

lemma drop_advance: "drop ii t = s @ rest \<Longrightarrow> drop (ii + length s) t = rest"
  by (metis add.commute append_eq_conv_conj drop_drop)

text \<open>
  When the loop of \<open>parse_string\<close> stops inside the text, it stands at the first
  unescaped quote, and it has collected every character up to it.
\<close>

lemma string_loop_stops:
  "string_loop t qs jj e acc = (v, k) \<Longrightarrow> qs = [q] \<Longrightarrow> k < length t \<Longrightarrow>
   \<exists>body rest. drop jj t = body @ q # rest \<and> closes q e body
      \<and> v = acc @ body @ [q] \<and> k = jj + length body"
proof (induction t qs jj e acc rule: string_loop.induct)
  case (1 t qs jj e acc)
  show ?case
  proof (cases "jj < length t")
    case False
    with "1.prems" show ?thesis by (subst (asm) string_loop.simps) simp
  next
    case True
    then have d: "drop jj t = t ! jj # drop (jj + 1) t" and c: "charAt t jj = [t ! jj]"
      by (simp_all add: Cons_nth_drop_Suc charAt_def)
    show ?thesis
    proof (cases "\<not> e \<and> charAt t jj = qs")
      case stop: True
      with True "1.prems"(1) have "v = acc @ charAt t jj" "k = jj"
        by (subst (asm) string_loop.simps; simp add: Let_def)+
      with stop c d "1.prems"(2) have "drop jj t = [] @ q # drop (jj + 1) t \<and> closes q e []
          \<and> v = acc @ [] @ [q] \<and> k = jj + length ([] :: string)"
        by simp
      then show ?thesis by blast
    next
      case go: False
      with True "1.prems"(1)
      have rec: "string_loop t qs (jj + 1) (\<not> e \<and> charAt t jj = [backslash]) (acc @ charAt t jj)
          = (v, k)"
        by (subst (asm) string_loop.simps) (simp add: Let_def)
      from "1.IH" [OF True refl go rec "1.prems"(2,3)]
      obtain body rest where b: "drop (jj + 1) t = body @ q # rest"
        "closes q (\<not> e \<and> charAt t jj = [backslash]) body"
        "v = (acc @ charAt t jj) @ body @ [q]" "k = jj + 1 + length body"
        by blast
      from go c "1.prems"(2) have nq: "\<not> (\<not> e \<and> t ! jj = q)" by auto
      from b c d nq have "drop jj t = (t ! jj # body) @ q # rest \<and> closes q e (t ! jj # body)
          \<and> v = acc @ (t ! jj # body) @ [q] \<and> k = jj + length (t ! jj # body)"
        by simp
      then show ?thesis by blast
    qed
  qed
qed

lemma parse_string_success:
  assumes "error (parse_string t ii) = None"
  shows "\<exists>q body rest. (q = squote \<or> q = dquote) \<and> drop ii t = q # body @ q # rest
           \<and> closes q False body
           \<and> parse_string t ii
               = \<lparr>val = Scalar (q # body @ [q]),
                  position = consume_comments t (ii + length body + 2), error = None\<rparr>"
proof -
  from assms obtain q where q: "q = squote \<or> q = dquote" and c: "charAt t ii = [q]"
    by (auto simp: parse_string_def Let_def split: if_splits)
  then have lt: "ii < length t" and tq: "t ! ii = q"
    by (auto simp: charAt_def split: if_splits)
  then have d0: "drop ii t = q # drop (ii + 1) t"
    using Cons_nth_drop_Suc [of ii t] by simp
  obtain v k where loop: "string_loop t [q] (ii + 1) False [q] = (v, k)"
    by (cases "string_loop t [q] (ii + 1) False [q]")
  from assms c loop have k: "k < length t"
    by (auto simp: parse_string_def Let_def split: if_splits)
  from string_loop_stops [OF loop refl k]
  obtain body rest where b: "drop (ii + 1) t = body @ q # rest" "closes q False body"
    "v = [q] @ body @ [q]" "k = ii + 1 + length body"
    by blast
  from b(1) have "drop (ii + 1 + length body) t = q # rest" by (rule drop_advance)
  with b(4) have "charAt t k = [q]" by (simp add: charAt_drop_Cons)
  with q c loop k b(3,4) have "parse_string t ii
      = \<lparr>val = Scalar (q # body @ [q]),
         position = consume_comments t (ii + length body + 2), error = None\<rparr>"
    by (simp add: parse_string_def Let_def)
  moreover from d0 b(1) have "drop ii t = q # body @ q # rest" by simp
  ultimately have "(q = squote \<or> q = dquote) \<and> drop ii t = q # body @ q # rest
           \<and> closes q False body
           \<and> parse_string t ii
               = \<lparr>val = Scalar (q # body @ [q]),
                  position = consume_comments t (ii + length body + 2), error = None\<rparr>"
    using q b(2) by simp
  then show ?thesis by blast
qed

text \<open>
  C4, as the code has it.  A quoted string that parses without error starts with a
  quote \<open>q\<close>, goes on with a \<open>body\<close> that holds no unescaped \<open>q\<close>, and ends with the
  first unescaped \<open>q\<close>.  The value is that source text from the opening quote through
  the closing quote, both quotes included and every escape as written, and the
  position is past the closing quote and the white space and comments that follow it.
  So the example input gives \<open>{a: ["1"], b: ["\"x\""]}\<close>.
\<close>

theorem parse_string_keeps_quotes:
  assumes "error (parse_string t ii) = None"
  shows "(\<exists>q body rest. (q = squote \<or> q = dquote) \<and> drop ii t = q # body @ q # rest
            \<and> closes q False body
            \<and> parse_string t ii
                = \<lparr>val = Scalar (q # body @ [q]),
                   position = consume_comments t (ii + length body + 2), error = None\<rparr>)
    \<and> parse_proto (''a: 1 b: '' @ [dquote] @ ''x'' @ [dquote] @ '' '') 0 None =
        Some (Returns
          \<lparr>val = Object [(''a'', [Scalar ''1'']),
                           (''b'', [Scalar ([dquote] @ ''x'' @ [dquote])])],
            position = 12, error = None\<rparr>)"
proof
  show "\<exists>q body rest. (q = squote \<or> q = dquote) \<and> drop ii t = q # body @ q # rest
            \<and> closes q False body
            \<and> parse_string t ii
                = \<lparr>val = Scalar (q # body @ [q]),
                   position = consume_comments t (ii + length body + 2), error = None\<rparr>"
    using assms by (rule parse_string_success)
next
  show "parse_proto (''a: 1 b: '' @ [dquote] @ ''x'' @ [dquote] @ '' '') 0 None =
        Some (Returns
          \<lparr>val = Object [(''a'', [Scalar ''1'']),
                           (''b'', [Scalar ([dquote] @ ''x'' @ [dquote])])],
            position = 12, error = None\<rparr>)"
    by code_simp
qed

text \<open>
  The theorem at the string \<open>"a\"b"\<close> followed by a space: the escaped quote does not
  end the string.
\<close>

theorem parse_string_keeps_quotes_witness:
  "error (parse_string ([dquote] @ ''a'' @ [backslash, dquote] @ ''b'' @ [dquote] @ '' '') 0)
     = None
   \<and> (\<exists>q body rest. (q = squote \<or> q = dquote)
         \<and> drop 0 ([dquote] @ ''a'' @ [backslash, dquote] @ ''b'' @ [dquote] @ '' '')
             = q # body @ q # rest
         \<and> closes q False body
         \<and> parse_string ([dquote] @ ''a'' @ [backslash, dquote] @ ''b'' @ [dquote] @ '' '') 0
             = \<lparr>val = Scalar (q # body @ [q]),
                position = consume_comments
                  ([dquote] @ ''a'' @ [backslash, dquote] @ ''b'' @ [dquote] @ '' '')
                  (0 + length body + 2),
                error = None\<rparr>)
   \<and> parse_string ([dquote] @ ''a'' @ [backslash, dquote] @ ''b'' @ [dquote] @ '' '') 0
       = \<lparr>val = Scalar ([dquote] @ ''a'' @ [backslash, dquote] @ ''b'' @ [dquote]),
          position = 7, error = None\<rparr>"
proof -
  have h: "error (parse_string
      ([dquote] @ ''a'' @ [backslash, dquote] @ ''b'' @ [dquote] @ '' '') 0) = None"
    by code_simp
  have v: "parse_string ([dquote] @ ''a'' @ [backslash, dquote] @ ''b'' @ [dquote] @ '' '') 0
       = \<lparr>val = Scalar ([dquote] @ ''a'' @ [backslash, dquote] @ ''b'' @ [dquote]),
          position = 7, error = None\<rparr>"
    by code_simp
  from parse_string_keeps_quotes [OF h, THEN conjunct1] h v show ?thesis
    by (intro conjI)
qed

text \<open>
  C4, as the specification states it, fails: for the example input the value of field
  \<open>b\<close> is not the bare contents \<open>x\<close>.
\<close>

theorem parse_string_example_counterexample:
  "returned_val (parse_proto (''a: 1 b: '' @ [dquote] @ ''x'' @ [dquote] @ '' '') 0 None)
     \<noteq> Some (Object [(''a'', [Scalar ''1'']), (''b'', [Scalar ''x''])])"
  by code_simp

section \<open>Errors that are not reported\<close>

text \<open>
  C7.  In the input \<open>a: ["x\<close> the only list element is an unterminated string, and
  \<open>parse_value\<close> reports it.  \<open>parse_list\<close> returns the position of that result with
  no error, and so does the whole parse: the error of the element is lost.
\<close>

theorem parse_list_drops_element_error:
  "parse_value (''a: ['' @ [dquote] @ ''x'') 4 None =
     Some (Returns \<lparr>val = Scalar ([dquote] @ ''x''), position = 6,
                    error = Some (No_end_of_string 4)\<rparr>)
   \<and> parse_list (''a: ['' @ [dquote] @ ''x'') 3 None =
     Some (Returns \<lparr>val = List [], position = 6, error = None\<rparr>)
   \<and> parse_proto (''a: ['' @ [dquote] @ ''x'') 0 None =
     Some (Returns \<lparr>val = Object [(''a'', [List []])], position = 6, error = None\<rparr>)"
  by code_simp

text \<open>
  C8.  At a character that is neither a quote nor a token character, \<open>parse_token\<close>
  matches nothing and returns the empty string with no error: the value of
  \<open>consume_regexp\<close> is a string, which is always defined.
\<close>

lemma parse_token_unquoted:
  assumes "charAt t ii \<noteq> [dquote]" "charAt t ii \<noteq> [squote]"
  shows "error (parse_token t ii b) = None"
  using assms by (simp add: parse_token_def consume_regexp_def Let_def)

theorem parse_token_accepts_empty_token:
  "parse_token ''}'' 0 True = \<lparr>val = Scalar [], position = 0, error = None\<rparr>
   \<and> parse_token ''a: ;'' 3 False = \<lparr>val = Scalar [], position = 3, error = None\<rparr>"
  by code_simp

section \<open>Slicing\<close>

text \<open>
  C9.  The nested object under \<open>a\<close> has no leaf that the predicate keeps; its slice is
  the empty object, and that empty object is still stored under \<open>a\<close>.
\<close>

theorem proto_slice_keeps_empty_object:
  "proto_slice [(''a'', [Object [(''b'', [Scalar ''1''])]])] (\<lambda>key x. False)
     = Returns [(''a'', [Object []])]"
  by code_simp

section \<open>Field filtering\<close>













section \<open>Positions never go back, and the bound on the depth of calls is never reached\<close>

lemma comments_loop_ge: "ii \<le> comments_loop t ii"
proof (induction t ii rule: comments_loop.induct)
  case (1 t ii)
  show ?case
  proof (cases "ii < length t \<and> charAt t ii = ''#''")
    case True
    then have "ii < skip_line t ii" by (simp add: skip_line_gt)
    also have "\<dots> \<le> consume_whitespace t (skip_line t ii)" by (rule consume_whitespace_ge)
    also from 1 True have "\<dots> \<le> comments_loop t (consume_whitespace t (skip_line t ii))" by blast
    finally show ?thesis using True by (subst comments_loop.simps) simp
  next
    case False
    then show ?thesis by (subst comments_loop.simps) auto
  qed
qed

lemma consume_comments_ge: "ii \<le> consume_comments t ii"
  unfolding consume_comments_def
  using consume_whitespace_ge [of ii t] comments_loop_ge [of "consume_whitespace t ii" t]
  by linarith

lemma consume_comments_ge':
  "a \<le> ii \<Longrightarrow> a \<le> consume_comments t ii"
  "a \<le> ii \<Longrightarrow> a \<le> consume_comments t (Suc ii)"
  using consume_comments_ge [of ii t] consume_comments_ge [of "Suc ii" t] by linarith+

lemma parse_string_position: "ii \<le> position (parse_string t ii)"
proof (cases "charAt t ii \<noteq> [squote] \<and> charAt t ii \<noteq> [dquote]")
  case True
  then show ?thesis by (simp add: parse_string_def)
next
  case False
  then have lt: "ii < length t" by (auto simp: charAt_def split: if_splits)
  obtain v k where loop: "string_loop t (charAt t ii) (ii + 1) False (charAt t ii) = (v, k)"
    by (cases "string_loop t (charAt t ii) (ii + 1) False (charAt t ii)")
  from string_loop_result [OF loop] lt have "ii + 1 \<le> k" by simp
  moreover have "k + 1 \<le> consume_comments t (k + 1)" by (rule consume_comments_ge)
  ultimately show ?thesis using False loop
    by (auto simp: parse_string_def Let_def)
qed

lemma parse_token_position: "ii \<le> position (parse_token t ii b)"
  by (simp add: parse_token_def Let_def parse_string_position consume_regexp_def consume_loop_ge)

lemma list_finish_position: "ii \<le> position (list_finish t ii acc e)"
  by (simp add: list_finish_def consume_comments_ge')

lemma parse_position_aux:
  "(\<forall>t ii ff r. parse_proto_fuel n t ii ff = Some (Returns r) \<longrightarrow> ii \<le> position r)
 \<and> (\<forall>t ii ff r. parse_body_fuel n t ii ff = Some (Returns r) \<longrightarrow> ii \<le> position r)
 \<and> (\<forall>t ii ff acc r. parse_body_loop n t ii ff acc = Some (Returns r) \<longrightarrow> ii \<le> position r)
 \<and> (\<forall>t ii ff r. parse_value_fuel n t ii ff = Some (Returns r) \<longrightarrow> ii \<le> position r)
 \<and> (\<forall>t ii ff r. parse_list_fuel n t ii ff = Some (Returns r) \<longrightarrow> ii \<le> position r)
 \<and> (\<forall>t ii ff acc r. parse_list_loop n t ii ff acc = Some (Returns r) \<longrightarrow> ii \<le> position r)"
proof (induction n)
  case 0
  show ?case by simp
next
  case (Suc n)
  then have IH_proto: "\<And>t ii ff r. parse_proto_fuel n t ii ff = Some (Returns r) \<Longrightarrow> ii \<le> position r"
    and IH_body: "\<And>t ii ff r. parse_body_fuel n t ii ff = Some (Returns r) \<Longrightarrow> ii \<le> position r"
    and IH_body_loop: "\<And>t ii ff acc r. parse_body_loop n t ii ff acc = Some (Returns r) \<Longrightarrow> ii \<le> position r"
    and IH_value: "\<And>t ii ff r. parse_value_fuel n t ii ff = Some (Returns r) \<Longrightarrow> ii \<le> position r"
    and IH_list: "\<And>t ii ff r. parse_list_fuel n t ii ff = Some (Returns r) \<Longrightarrow> ii \<le> position r"
    and IH_list_loop: "\<And>t ii ff acc r. parse_list_loop n t ii ff acc = Some (Returns r) \<Longrightarrow> ii \<le> position r"
    by simp_all
  have proto: "ii \<le> position r" if h: "parse_proto_fuel (Suc n) t ii ff = Some (Returns r)" for t ii ff r
  proof -
    let ?ii1 = "consume_comments t ii"
    let ?ii2 = "if charAt t ?ii1 = ''{'' then ?ii1 + 1 else ?ii1"
    have "ii \<le> ?ii2" using consume_comments_ge [of ii t] by simp
    moreover obtain b where b: "parse_body_fuel n t ?ii2 ff = Some (Returns b)"
      using h by (auto simp: Let_def split: option.splits outcome.splits)
    moreover from b have "?ii2 \<le> position b" by (rule IH_body)
    ultimately have "ii \<le> position b" by linarith
    then have "ii \<le> consume_comments t (consume_comments t (position b))"
      "ii \<le> consume_comments t (consume_comments t (position b) + 1)"
      by (simp_all add: consume_comments_ge')
    with h b \<open>ii \<le> position b\<close> show ?thesis
      by (auto simp: Let_def split: if_splits)
  qed
  have body: "ii \<le> position r" if h: "parse_body_fuel (Suc n) t ii ff = Some (Returns r)" for t ii ff r
    using h IH_body_loop by simp
  have body_loop: "ii \<le> position r" if h: "parse_body_loop (Suc n) t ii ff acc = Some (Returns r)" for t ii ff acc r
  proof (cases "ii < length t \<and> charAt t ii \<noteq> ''}''")
    case False
    with h show ?thesis by auto
  next
    case True
    let ?ii1 = "consume_comments t ii"
    let ?name = "parse_token t ?ii1 True"
    let ?ii2 = "consume_comments t (position ?name)"
    let ?ii3 = "consume_comments t (if charAt t ?ii2 = '':'' then ?ii2 + 1 else ?ii2)"
    have 1: "ii \<le> ?ii1" by (rule consume_comments_ge)
    have "?ii1 \<le> position ?name" by (rule parse_token_position)
    with 1 have "ii \<le> position ?name" by linarith
    then have 2: "ii \<le> ?ii2" by (rule consume_comments_ge')
    then have 3: "ii \<le> ?ii3" by (simp add: consume_comments_ge')
    show ?thesis
    proof (cases "error ?name \<noteq> None")
      case True
      with h \<open>ii < length t \<and> charAt t ii \<noteq> ''}''\<close> 1 show ?thesis by (auto simp: Let_def)
    next
      case False
      with h True obtain v where v: "parse_value_fuel n t ?ii3 ff = Some (Returns v)"
        by (auto simp: Let_def split: option.splits outcome.splits)
      let ?ii4 = "consume_comments t (if position v \<noteq> 0 then position v else ?ii3)"
      let ?ii5 = "if charAt t ?ii4 = '','' then consume_comments t (?ii4 + 1) else ?ii4"
      from v have "?ii3 \<le> position v" by (rule IH_value)
      with 3 have "ii \<le> (if position v \<noteq> 0 then position v else ?ii3)" by simp
      then have 4: "ii \<le> ?ii4" by (rule consume_comments_ge')
      then have 5: "ii \<le> ?ii5" by (simp add: consume_comments_ge')
      have rec: "?ii5 \<le> position r" if h: "parse_body_loop n t ?ii5 ff a = Some (Returns r)" for a
        using h by (rule IH_body_loop)
      from h True False v 4 5 rec show ?thesis
        by (auto simp: Let_def split: if_splits outcome.splits dest: rec
            intro: order_trans [OF 5])
    qed
  qed
  have "value": "ii \<le> position r" if h: "parse_value_fuel (Suc n) t ii ff = Some (Returns r)" for t ii ff r
    using h IH_proto IH_list parse_token_position [of ii t False] by (auto split: if_splits)
  have list: "ii \<le> position r" if h: "parse_list_fuel (Suc n) t ii ff = Some (Returns r)" for t ii ff r
  proof -
    let ?ii1 = "if charAt t ii = ''['' then consume_comments t (ii + 1) else ii"
    have "ii \<le> ?ii1" by (simp add: consume_comments_ge')
    moreover from h have "?ii1 \<le> position r" by (simp add: IH_list_loop)
    ultimately show ?thesis by linarith
  qed
  have list_loop: "ii \<le> position r" if h: "parse_list_loop (Suc n) t ii ff acc = Some (Returns r)" for t ii ff acc r
  proof (cases "ii < length t \<and> charAt t ii \<noteq> '']''")
    case False
    with h list_finish_position [of ii t acc None] show ?thesis by auto
  next
    case True
    with h obtain item where item: "parse_value_fuel n t ii ff = Some (Returns item)"
      by (auto simp: Let_def split: option.splits outcome.splits)
    from item have 1: "ii \<le> position item" by (rule IH_value)
    let ?ii1 = "consume_comments t (position item)"
    let ?ii2 = "if ?ii1 < length t \<and> charAt t ?ii1 = '','' then consume_comments t (?ii1 + 1) else ?ii1"
    from 1 have "ii \<le> ?ii1" by (simp add: consume_comments_ge')
    then have 2: "ii \<le> ?ii2" by (simp add: consume_comments_ge')
    from h True item
    consider "position r = position item"
      | e where "r = list_finish t ?ii2 (acc @ [val item]) e"
      | "parse_list_loop n t ?ii2 ff (acc @ [val item]) = Some (Returns r)"
      by (simp add: Let_def split: if_splits) auto
    then show ?thesis
    proof cases
      case 1
      with \<open>ii \<le> position item\<close> show ?thesis by simp
    next
      case 2
      have "?ii2 \<le> position (list_finish t ?ii2 (acc @ [val item]) e)"
        by (rule list_finish_position)
      with 2 \<open>ii \<le> ?ii2\<close> show ?thesis by simp
    next
      case 3
      then have "?ii2 \<le> position r" by (rule IH_list_loop)
      with \<open>ii \<le> ?ii2\<close> show ?thesis by linarith
    qed
  qed
  from proto body body_loop "value" list list_loop show ?case by blast
qed

lemmas parse_position =
  parse_position_aux [THEN conjunct1, rule_format]
  parse_position_aux [THEN conjunct2, THEN conjunct1, rule_format]
  parse_position_aux [THEN conjunct2, THEN conjunct2, THEN conjunct1, rule_format]
  parse_position_aux [THEN conjunct2, THEN conjunct2, THEN conjunct2, THEN conjunct1, rule_format]
  parse_position_aux [THEN conjunct2, THEN conjunct2, THEN conjunct2, THEN conjunct2, THEN conjunct1, rule_format]
  parse_position_aux [THEN conjunct2, THEN conjunct2, THEN conjunct2, THEN conjunct2, THEN conjunct2, rule_format]

lemma consume_loop_stop:
  "ii < length t \<Longrightarrow> \<not> regexp (t ! ii) \<Longrightarrow> consume_loop t regexp ii = ii"
  by (subst consume_loop.simps) simp

lemma consume_comments_stop:
  assumes "ii < length t" "\<not> is_space (t ! ii)" "t ! ii \<noteq> CHR ''#''"
  shows "consume_comments t ii = ii"
proof -
  from assms have "consume_whitespace t ii = ii"
    by (simp add: consume_whitespace_def consume_regexp_def consume_loop_stop)
  moreover from assms have "comments_loop t ii = ii"
    by (subst comments_loop.simps) (simp add: charAt_def)
  ultimately show ?thesis by (simp add: consume_comments_def)
qed

lemma consume_comments_at_brace:
  "charAt t ii = ''{'' \<Longrightarrow> consume_comments t ii = ii"
  by (rule consume_comments_stop) (auto simp: charAt_def is_space_def split: if_splits)

text \<open>
  Names for the positions that one turn of the loops computes, and for the outcome of
  its store.
\<close>

definition body_name :: "string \<Rightarrow> nat \<Rightarrow> parse_result" where
  "body_name t ii = parse_token t (consume_comments t ii) True"

definition body_value_start :: "string \<Rightarrow> nat \<Rightarrow> nat" where
  "body_value_start t ii =
     (let ii2 = consume_comments t (position (body_name t ii))
      in consume_comments t (if charAt t ii2 = '':'' then ii2 + 1 else ii2))"

definition body_value_end :: "string \<Rightarrow> nat \<Rightarrow> parse_result \<Rightarrow> nat" where
  "body_value_end t ii v =
     consume_comments t (if position v \<noteq> 0 then position v else body_value_start t ii)"

definition body_next :: "string \<Rightarrow> nat \<Rightarrow> parse_result \<Rightarrow> nat" where
  "body_next t ii v =
     (let ii4 = body_value_end t ii v
      in if charAt t ii4 = '','' then consume_comments t (ii4 + 1) else ii4)"

definition body_acc :: "string \<Rightarrow> nat \<Rightarrow> (string \<Rightarrow> bool) option \<Rightarrow> proto \<Rightarrow> parse_result \<Rightarrow> proto outcome" where
  "body_acc t ii ff acc v =
     (if keeps ff (to_string (val (body_name t ii)))
      then add_value acc (to_string (val (body_name t ii))) (val v) else Returns acc)"

definition list_next :: "string \<Rightarrow> parse_result \<Rightarrow> nat" where
  "list_next t item =
     (let ii1 = consume_comments t (position item)
      in if ii1 < length t \<and> charAt t ii1 = '','' then consume_comments t (ii1 + 1) else ii1)"

lemma parse_body_loop_step:
  "parse_body_loop (Suc n) t ii ff acc =
     (if ii < length t \<and> charAt t ii \<noteq> ''}'' then
        if error (body_name t ii) \<noteq> None
        then Some (Returns \<lparr>val = Object acc, position = consume_comments t ii,
                            error = error (body_name t ii)\<rparr>)
        else
          (case parse_value_fuel n t (body_value_start t ii) ff of
             None \<Rightarrow> None
           | Some (Throws e) \<Rightarrow> Some (Throws e)
           | Some (Returns v) \<Rightarrow>
               (case body_acc t ii ff acc v of
                  Throws e \<Rightarrow> Some (Throws e)
                | Returns acc' \<Rightarrow>
                    if error v \<noteq> None
                    then Some (Returns \<lparr>val = Object acc',
                                        position = body_value_end t ii v, error = error v\<rparr>)
                    else if body_next t ii v = ii
                    then Some (Returns \<lparr>val = Object acc',
                               position = body_next t ii v,
                               error = Some (make_error ''Internal error!  Infinite loop'' t
                                               (body_next t ii v))\<rparr>)
                    else parse_body_loop n t (body_next t ii v) ff acc'))
      else Some (Returns \<lparr>val = Object acc, position = ii, error = None\<rparr>))"
  by (simp only: parse_body_loop.simps Let_def body_name_def body_value_start_def
      body_value_end_def body_next_def body_acc_def)

lemma parse_list_loop_step:
  "parse_list_loop (Suc n) t ii ff acc =
     (if ii < length t \<and> charAt t ii \<noteq> '']'' then
        (case parse_value_fuel n t ii ff of
           None \<Rightarrow> None
         | Some (Throws e) \<Rightarrow> Some (Throws e)
         | Some (Returns item) \<Rightarrow>
             if error item \<noteq> None
             then Some (Returns \<lparr>val = List acc, position = position item, error = None\<rparr>)
             else if ii = list_next t item
             then Some (Returns (list_finish t (list_next t item) (acc @ [val item])
                    (Some (make_error ''Error parsing list, unrecognized character'' t
                             (list_next t item)))))
             else parse_list_loop n t (list_next t item) ff (acc @ [val item]))
      else Some (Returns (list_finish t ii acc None)))"
  by (simp only: parse_list_loop.simps Let_def list_next_def)

lemma body_value_start_ge: "ii \<le> body_value_start t ii"
proof -
  have "ii \<le> consume_comments t ii" by (rule consume_comments_ge)
  also have "\<dots> \<le> position (body_name t ii)"
    unfolding body_name_def by (rule parse_token_position)
  finally have "ii \<le> consume_comments t (position (body_name t ii))"
    by (rule consume_comments_ge')
  then show ?thesis
    by (simp add: body_value_start_def Let_def consume_comments_ge')
qed

lemma body_value_end_ge:
  assumes "body_value_start t ii \<le> position v"
  shows "ii \<le> body_value_end t ii v"
proof -
  from assms body_value_start_ge [of ii t]
  have "ii \<le> (if position v \<noteq> 0 then position v else body_value_start t ii)" by simp
  then show ?thesis unfolding body_value_end_def by (rule consume_comments_ge')
qed

lemma body_next_ge:
  assumes "body_value_start t ii \<le> position v"
  shows "ii \<le> body_next t ii v"
  using body_value_end_ge [OF assms]
  by (simp add: body_next_def Let_def consume_comments_ge')

lemma list_next_ge:
  assumes "ii \<le> position item"
  shows "ii \<le> list_next t item"
proof -
  from assms have "ii \<le> consume_comments t (position item)" by (rule consume_comments_ge')
  then show ?thesis by (simp add: list_next_def Let_def consume_comments_ge')
qed

lemma fuel_step:
  "ii < p \<Longrightarrow> ii < l \<Longrightarrow> 4 * (l - ii) + 2 \<le> Suc n \<Longrightarrow> 4 * (l - p) + 2 \<le> n"
  "ii \<le> p \<Longrightarrow> 4 * (l - ii) + 2 \<le> Suc n \<Longrightarrow> 4 * (l - p) + 1 \<le> n"
  by linarith+

lemma parse_total_aux:
  "(\<forall>t ii ff. (charAt t ii = ''{'' \<and> 4 * (length t - ii) \<le> n) \<or> 4 * (length t - ii) + 4 \<le> n
       \<longrightarrow> parse_proto_fuel n t ii ff \<noteq> None)
 \<and> (\<forall>t ii ff. 4 * (length t - ii) + 3 \<le> n \<longrightarrow> parse_body_fuel n t ii ff \<noteq> None)
 \<and> (\<forall>t ii ff acc. 4 * (length t - ii) + 2 \<le> n \<longrightarrow> parse_body_loop n t ii ff acc \<noteq> None)
 \<and> (\<forall>t ii ff. 4 * (length t - ii) + 1 \<le> n \<longrightarrow> parse_value_fuel n t ii ff \<noteq> None)
 \<and> (\<forall>t ii ff. (charAt t ii = ''['' \<and> 4 * (length t - ii) \<le> n) \<or> 4 * (length t - ii) + 3 \<le> n
       \<longrightarrow> parse_list_fuel n t ii ff \<noteq> None)
 \<and> (\<forall>t ii ff acc. 4 * (length t - ii) + 2 \<le> n \<longrightarrow> parse_list_loop n t ii ff acc \<noteq> None)"
proof (induction n)
  case 0
  show ?case by (auto simp: charAt_def split: if_splits)
next
  case (Suc n)
  then have IH_proto: "\<And>t ii ff. (charAt t ii = ''{'' \<and> 4 * (length t - ii) \<le> n) \<or> 4 * (length t - ii) + 4 \<le> n
       \<Longrightarrow> parse_proto_fuel n t ii ff \<noteq> None"
    and IH_body: "\<And>t ii ff. 4 * (length t - ii) + 3 \<le> n \<Longrightarrow> parse_body_fuel n t ii ff \<noteq> None"
    and IH_body_loop: "\<And>t ii ff acc. 4 * (length t - ii) + 2 \<le> n \<Longrightarrow> parse_body_loop n t ii ff acc \<noteq> None"
    and IH_value: "\<And>t ii ff. 4 * (length t - ii) + 1 \<le> n \<Longrightarrow> parse_value_fuel n t ii ff \<noteq> None"
    and IH_list: "\<And>t ii ff. (charAt t ii = ''['' \<and> 4 * (length t - ii) \<le> n) \<or> 4 * (length t - ii) + 3 \<le> n
       \<Longrightarrow> parse_list_fuel n t ii ff \<noteq> None"
    and IH_list_loop: "\<And>t ii ff acc. 4 * (length t - ii) + 2 \<le> n \<Longrightarrow> parse_list_loop n t ii ff acc \<noteq> None"
    by blast+
  have proto: "parse_proto_fuel (Suc n) t ii ff \<noteq> None"
    if h: "(charAt t ii = ''{'' \<and> 4 * (length t - ii) \<le> Suc n) \<or> 4 * (length t - ii) + 4 \<le> Suc n"
    for t ii ff
  proof -
    let ?ii1 = "consume_comments t ii"
    let ?ii2 = "if charAt t ?ii1 = ''{'' then ?ii1 + 1 else ?ii1"
    have "4 * (length t - ?ii2) + 3 \<le> n"
    proof (cases "charAt t ii = ''{''")
      case True
      then have "?ii1 = ii" by (rule consume_comments_at_brace)
      moreover from True have "ii < length t" by (auto simp: charAt_def split: if_splits)
      ultimately show ?thesis using h True by auto
    next
      case False
      moreover have "ii \<le> ?ii1" by (rule consume_comments_ge)
      ultimately show ?thesis using h by auto
    qed
    then have "parse_body_fuel n t ?ii2 ff \<noteq> None" by (rule IH_body)
    then show ?thesis by (auto simp: Let_def split: outcome.splits)
  qed
  have body: "parse_body_fuel (Suc n) t ii ff \<noteq> None" if h: "4 * (length t - ii) + 3 \<le> Suc n" for t ii ff
    using h IH_body_loop by simp
  have body_loop: "parse_body_loop (Suc n) t ii ff acc \<noteq> None"
    if h: "4 * (length t - ii) + 2 \<le> Suc n" for t ii ff acc
  proof (cases "ii < length t \<and> charAt t ii \<noteq> ''}''")
    case False
    then show ?thesis by (auto simp: parse_body_loop_step simp del: parse_body_loop.simps)
  next
    case True
    from body_value_start_ge h have "4 * (length t - body_value_start t ii) + 1 \<le> n"
      by (rule fuel_step)
    then obtain res where res: "parse_value_fuel n t (body_value_start t ii) ff = Some res"
      using IH_value by blast
    show ?thesis
    proof (cases res)
      case (Throws e)
      with True res show ?thesis
        by (simp add: parse_body_loop_step del: parse_body_loop.simps)
    next
      case (Returns v)
      with res have v: "parse_value_fuel n t (body_value_start t ii) ff = Some (Returns v)"
        by simp
      from v have "body_value_start t ii \<le> position v" by (rule parse_position)
      then have ge: "ii \<le> body_next t ii v" by (rule body_next_ge)
      have "parse_body_loop n t (body_next t ii v) ff a \<noteq> None"
        if "body_next t ii v \<noteq> ii" for a
      proof -
        from ge that have "ii < body_next t ii v" by linarith
        moreover from True have "ii < length t" by simp
        ultimately have "4 * (length t - body_next t ii v) + 2 \<le> n"
          using h by (rule fuel_step)
        then show ?thesis by (rule IH_body_loop)
      qed
      with True v show ?thesis
        by (simp add: parse_body_loop_step split: outcome.splits
            del: parse_body_loop.simps)
    qed
  qed
  have "value": "parse_value_fuel (Suc n) t ii ff \<noteq> None" if h: "4 * (length t - ii) + 1 \<le> Suc n" for t ii ff
    using h IH_proto [of t ii ff] IH_list [of t ii ff] by auto
  have list: "parse_list_fuel (Suc n) t ii ff \<noteq> None"
    if h: "(charAt t ii = ''['' \<and> 4 * (length t - ii) \<le> Suc n) \<or> 4 * (length t - ii) + 3 \<le> Suc n"
    for t ii ff
  proof -
    let ?ii1 = "if charAt t ii = ''['' then consume_comments t (ii + 1) else ii"
    have "4 * (length t - ?ii1) + 2 \<le> n"
    proof (cases "charAt t ii = ''[''")
      case True
      then have "ii < length t" by (auto simp: charAt_def split: if_splits)
      moreover have "ii + 1 \<le> consume_comments t (ii + 1)" by (rule consume_comments_ge)
      ultimately show ?thesis using h True by auto
    next
      case False
      then show ?thesis using h by auto
    qed
    then have "parse_list_loop n t ?ii1 ff [] \<noteq> None" by (rule IH_list_loop)
    then show ?thesis by simp
  qed
  have list_loop: "parse_list_loop (Suc n) t ii ff acc \<noteq> None"
    if h: "4 * (length t - ii) + 2 \<le> Suc n" for t ii ff acc
  proof (cases "ii < length t \<and> charAt t ii \<noteq> '']''")
    case False
    then show ?thesis by (auto simp: parse_list_loop_step simp del: parse_list_loop.simps)
  next
    case True
    from h have "4 * (length t - ii) + 1 \<le> n" by simp
    then obtain res where res: "parse_value_fuel n t ii ff = Some res"
      using IH_value by blast
    show ?thesis
    proof (cases res)
      case (Throws e)
      with True res show ?thesis
        by (simp add: parse_list_loop_step del: parse_list_loop.simps)
    next
      case (Returns item)
      with res have item: "parse_value_fuel n t ii ff = Some (Returns item)" by simp
      from item have "ii \<le> position item" by (rule parse_position)
      then have ge: "ii \<le> list_next t item" by (rule list_next_ge)
      have "parse_list_loop n t (list_next t item) ff a \<noteq> None"
        if "ii \<noteq> list_next t item" for a
      proof -
        from ge that have "ii < list_next t item" by linarith
        moreover from True have "ii < length t" by simp
        ultimately have "4 * (length t - list_next t item) + 2 \<le> n"
          using h by (rule fuel_step)
        then show ?thesis by (rule IH_list_loop)
      qed
      with True item show ?thesis
        by (simp add: parse_list_loop_step del: parse_list_loop.simps)
    qed
  qed
  from proto body body_loop "value" list list_loop show ?case by blast
qed

lemma fuel_bound: "4 * (length t - ii) + 4 \<le> fuel t"
proof -
  have "length t - ii \<le> length t" by simp
  then have "4 * (length t - ii) \<le> 4 * length t" by linarith
  then show ?thesis by (simp add: fuel_def)
qed

lemma parse_proto_total: "\<exists>r. parse_proto t ii ff = Some r"
  using parse_total_aux [of "fuel t", THEN conjunct1, rule_format, of t ii ff]
    fuel_bound [of t ii]
  by (auto simp: parse_proto_def)

lemma parse_body_total: "\<exists>r. parse_body t ii ff = Some r"
  using parse_total_aux [of "fuel t", THEN conjunct2, THEN conjunct1, rule_format, of t ii ff]
    fuel_bound [of t ii]
  by (auto simp: parse_body_def)

lemma parse_value_total: "\<exists>r. parse_value t ii ff = Some r"
  using parse_total_aux [of "fuel t", THEN conjunct2, THEN conjunct2, THEN conjunct2, THEN conjunct1, rule_format, of t ii ff]
    fuel_bound [of t ii]
  by (auto simp: parse_value_def)

lemma parse_list_total: "\<exists>r. parse_list t ii ff = Some r"
  using parse_total_aux [of "fuel t", THEN conjunct2, THEN conjunct2, THEN conjunct2, THEN conjunct2, THEN conjunct1, rule_format, of t ii ff]
    fuel_bound [of t ii]
  by (auto simp: parse_list_def)

section \<open>Field names that every object inherits\<close>

text \<open>
  \<open>parse_body\<close> stores a value under its name after the test \<open>name in obj\<close>, and
  the empty object it starts from already has the names of \<open>Object.prototype\<close>.
  For such a name no array is created, \<open>obj[name]\<close> is a function, and the call of
  its \<open>push\<close> throws a \<open>TypeError\<close>: the parse ends with the exception and returns
  nothing.  The grammar at the head of the source admits these names like any other
  (a name is a run of \<open>VAR_CHAR\<close>), and what every parsing function documents as
  its result is an object with \<open>value\<close>, \<open>position\<close> and \<open>error\<close>.
\<close>

text \<open>
  C3.  The occurrences of a repeated name are appended to one sequence in source
  order, also when another field stands between them.  But when the repeated name is
  an inherited one, as in \<open>constructor: 1 constructor: 2\<close>, the parse throws and no
  tree is returned.
\<close>

theorem repeated_inherited_name_throws:
  "parse_proto ''a { b: 1 } a { b: 2 }'' 0 None =
     Some (Returns
       \<lparr>val = Object [(''a'', [Object [(''b'', [Scalar ''1''])],
                                Object [(''b'', [Scalar ''2''])]])],
         position = 21, error = None\<rparr>)
   \<and> parse_proto ''a: 1 b: 2 a: 3'' 0 None =
     Some (Returns
       \<lparr>val = Object [(''a'', [Scalar ''1'', Scalar ''3'']), (''b'', [Scalar ''2''])],
         position = 14, error = None\<rparr>)
   \<and> parse_proto ''constructor: 1 constructor: 2'' 0 None = Some (Throws TypeError)"
  by code_simp

text \<open>
  C10.  When the value of a field fails to parse, \<open>parse_body\<close> stores the partial
  value under the name of the field and returns the error of the value: the input
  \<open>a: 1 b: "x\<close> gives \<open>{a: ["1"], b: ["\"x"]}\<close> with the error of the unterminated
  string.  With an inherited name in the place of \<open>b\<close> the store throws before the
  error of the value is looked at, and neither the tree nor the error is returned.
\<close>

theorem parse_body_throws_at_failing_inherited_field:
  "parse_body (''a: 1 b: '' @ [dquote] @ ''x'') 0 None =
     Some (Returns
       \<lparr>val = Object [(''a'', [Scalar ''1'']), (''b'', [Scalar ([dquote] @ ''x'')])],
         position = 10, error = Some (No_end_of_string 8)\<rparr>)
   \<and> parse_body (''a: 1 toString: '' @ [dquote] @ ''x'') 0 None = Some (Throws TypeError)
   \<and> parse_proto (''a: 1 toString: '' @ [dquote] @ ''x'') 0 None = Some (Throws TypeError)"
  by code_simp

section \<open>Printing an empty object and reading it back\<close>

text \<open>
  C1.  The input \<open>a {}\<close> parses without error into \<open>{a: [{}]}\<close>.  \<open>format\<close> prints
  the empty object as \<open>a {\<close>, a blank, a line break, a blank and \<open>}\<close>.  Reading that
  back, the loop of \<open>parse_body\<close> finds a blank where it tests for the closing brace,
  skips the white space, and at the brace \<open>parse_token\<close> returns the empty token
  with no error, once for the name and once for the value: the body that is empty in
  the text comes back with one field, whose name and value are empty strings.  The
  text \<open>a { }\<close> is read in the same way, although the grammar at the head of the source
  lets a body be empty and asks for at least one character in a name.
\<close>

theorem format_round_trip_fails_on_empty_object:
  "parse_proto ''a {}'' 0 None =
     Some (Returns \<lparr>val = Object [(''a'', [Object []])], position = 4, error = None\<rparr>)
   \<and> format [(''a'', [Object []])] False [] = ''a { '' @ [newline] @ '' }'' @ [newline]
   \<and> parse_proto (format [(''a'', [Object []])] False []) 0 None =
     Some (Returns
       \<lparr>val = Object [(''a'', [Object [([], [Scalar []])]])],
         position = 8, error = None\<rparr>)
   \<and> parse_proto ''a { }'' 0 None =
     Some (Returns
       \<lparr>val = Object [(''a'', [Object [([], [Scalar []])]])],
         position = 5, error = None\<rparr>)"
  by code_simp

end
